theory Spec2Isabelle
  imports Complex_Main "HOL-Library.List_Lexorder" "HOL-Library.Product_Lexorder"
begin

section \<open>Python and NumPy values\<close>

text \<open>
  Exceptions are values. \<open>ValueError\<close> carries the first words of its message, so that
  the three places of the module that raise it stay distinguishable.
\<close>

datatype error = ValueError string | AssertionError | IndexError | TypeError

text \<open>
  Objective values are Python floats. The module only compares and negates them, so a
  float is a real number or one of the two infinities; objective values are never NaN.
\<close>

datatype pyfloat = MInf | Fin real | PInf

fun pyfloat_le :: "pyfloat \<Rightarrow> pyfloat \<Rightarrow> bool" where
  "pyfloat_le MInf y = True"
| "pyfloat_le x PInf = True"
| "pyfloat_le (Fin a) (Fin b) = (a \<le> b)"
| "pyfloat_le x y = False"

instantiation pyfloat :: linorder
begin

definition less_eq_pyfloat :: "pyfloat \<Rightarrow> pyfloat \<Rightarrow> bool" where
  "less_eq_pyfloat x y = pyfloat_le x y"

definition less_pyfloat :: "pyfloat \<Rightarrow> pyfloat \<Rightarrow> bool" where
  "less_pyfloat x y = (pyfloat_le x y \<and> \<not> pyfloat_le y x)"

instance
proof
  fix x y z :: pyfloat
  show "(x < y) = (x \<le> y \<and> \<not> y \<le> x)"
    by (simp add: less_eq_pyfloat_def less_pyfloat_def)
  show "x \<le> x"
    by (cases x) (simp_all add: less_eq_pyfloat_def)
  show "x \<le> y \<Longrightarrow> y \<le> z \<Longrightarrow> x \<le> z"
    by (cases x; cases y; cases z) (simp_all add: less_eq_pyfloat_def)
  show "x \<le> y \<Longrightarrow> y \<le> x \<Longrightarrow> x = y"
    by (cases x; cases y) (simp_all add: less_eq_pyfloat_def)
  show "x \<le> y \<or> y \<le> x"
    by (cases x; cases y) (auto simp add: less_eq_pyfloat_def)
qed

end

text \<open>Unary minus of a float.\<close>

fun fneg :: "pyfloat \<Rightarrow> pyfloat" where
  "fneg MInf = PInf"
| "fneg (Fin a) = Fin (- a)"
| "fneg PInf = MInf"

text \<open>
  An entry of the penalty array: NumPy's \<open>nan\<close> stands for a trial without penalty
  information, every comparison with it is false.
\<close>

datatype npfloat = NaN | Num pyfloat

definition isnan :: "npfloat \<Rightarrow> bool" where
  "isnan p = (case p of NaN \<Rightarrow> True | Num x \<Rightarrow> False)"

definition le_zero :: "npfloat \<Rightarrow> bool" where
  "le_zero p = (case p of NaN \<Rightarrow> False | Num x \<Rightarrow> x \<le> Fin 0)"

definition gt_zero :: "npfloat \<Rightarrow> bool" where
  "gt_zero p = (case p of NaN \<Rightarrow> False | Num x \<Rightarrow> Fin 0 < x)"

definition num_of :: "npfloat \<Rightarrow> pyfloat" where
  "num_of p = (case p of NaN \<Rightarrow> PInf | Num x \<Rightarrow> x)"

text \<open>
  A two-dimensional array: its rows and its second dimension, which \<open>shape\<close> reports
  also when there is no row. In a well-formed array every row has \<open>ncols\<close> entries.
\<close>

record 'a matrix =
  ncols :: nat
  rows :: "'a list list"

definition wf_matrix :: "'a matrix \<Rightarrow> bool" where
  "wf_matrix m = list_all (\<lambda>r. length r = ncols m) (rows m)"

text \<open>Indexing by a boolean mask of the same length: \<open>a[mask]\<close>.\<close>

definition compress :: "bool list \<Rightarrow> 'a list \<Rightarrow> 'a list" where
  "compress msk xs = map snd (filter fst (zip msk xs))"

definition mcompress :: "bool list \<Rightarrow> 'a matrix \<Rightarrow> 'a matrix" where
  "mcompress msk m = m\<lparr>rows := compress msk (rows m)\<rparr>"

text \<open>Assignment through an index array, \<open>a[idx] = v\<close>, and through a mask, \<open>a[mask] = vs\<close>.\<close>

definition assign_at :: "'a list \<Rightarrow> nat list \<Rightarrow> 'a \<Rightarrow> 'a list" where
  "assign_at a idx v = fold (\<lambda>i acc. acc[i := v]) idx a"

fun assign_mask :: "'a list \<Rightarrow> bool list \<Rightarrow> 'a list \<Rightarrow> 'a list" where
  "assign_mask [] msk vs = []"
| "assign_mask (a # as) [] vs = a # as"
| "assign_mask (a # as) (True # msk) [] = a # as"
| "assign_mask (a # as) (True # msk) (v # vs) = v # assign_mask as msk vs"
| "assign_mask (a # as) (False # msk) vs = a # assign_mask as msk vs"

text \<open>\<open>np.max(a, initial=i)\<close>.\<close>

definition max_initial :: "int list \<Rightarrow> int \<Rightarrow> int" where
  "max_initial a i = fold max a i"

text \<open>\<open>np.count_nonzero\<close> of a boolean array.\<close>

definition count_nonzero :: "bool list \<Rightarrow> nat" where
  "count_nonzero msk = length (filter id msk)"

text \<open>
  \<open>np.unique(a, return_inverse=True)\<close>: the sorted distinct entries and, for every entry
  of \<open>a\<close>, its position among them. With \<open>axis=0\<close> the entries are the rows, sorted
  lexicographically; the order on lists is the lexicographic one.
\<close>

fun index_of :: "'a list \<Rightarrow> 'a \<Rightarrow> nat" where
  "index_of [] x = 0"
| "index_of (y # ys) x = (if x = y then 0 else Suc (index_of ys x))"

definition np_unique :: "'a::linorder list \<Rightarrow> 'a list \<times> nat list" where
  "np_unique a = (let u = sort (remdups a) in (u, map (index_of u) a))"

text \<open>\<open>np.minimum.accumulate\<close>: the running minimum.\<close>

fun cummin_from :: "'a::linorder \<Rightarrow> 'a list \<Rightarrow> 'a list" where
  "cummin_from m [] = []"
| "cummin_from m (x # xs) = min m x # cummin_from (min m x) xs"

fun minimum_accumulate :: "'a::linorder list \<Rightarrow> 'a list" where
  "minimum_accumulate [] = []"
| "minimum_accumulate (x # xs) = x # cummin_from x xs"

text \<open>
  The truth value of a boolean array, as \<open>if a:\<close> asks for it: an array of two or more
  entries has none and raises; an empty array is false (with a deprecation warning, in
  the NumPy releases the module was written for).
\<close>

fun array_truth :: "bool list \<Rightarrow> error + bool" where
  "array_truth [] = Inr False"
| "array_truth [b] = Inr b"
| "array_truth (b # c # bs) = Inl (ValueError ''The truth value of an array'')"

section \<open>Trials and directions\<close>

text \<open>
  Modelled from the spec: the enumerations \<open>TrialState\<close> and \<open>StudyDirection\<close> and the
  class \<open>FrozenTrial\<close> are imported by the module and declared elsewhere; the states and
  directions are those of the spec's data model, the fields the ones the module reads.
\<close>

datatype TrialState = PENDING | RUNNING | COMPLETE | FAILED | PRUNED

datatype StudyDirection = MINIMIZE | MAXIMIZE

record FrozenTrial =
  number :: nat
  state :: TrialState
  trial_values :: "pyfloat option list option"
  system_attrs :: "(string \<times> pyfloat list) list"

definition CONSTRAINTS_KEY :: string where
  "CONSTRAINTS_KEY = ''constraints''"

section \<open>The module\<close>

definition normalize_value :: "pyfloat option \<Rightarrow> StudyDirection \<Rightarrow> pyfloat" where
  "normalize_value v direction =
     (let v1 = (case v of None \<Rightarrow> PInf | Some x \<Rightarrow> x);
          v2 = (if direction = MAXIMIZE then fneg v1 else v1)
      in v2)"

definition dominates ::
  "FrozenTrial \<Rightarrow> FrozenTrial \<Rightarrow> StudyDirection list \<Rightarrow> error + bool" where
  "dominates trial0 trial1 directions =
     (if state trial0 \<noteq> COMPLETE then Inr False
      else if state trial1 \<noteq> COMPLETE then Inr True
      else case trial_values trial0 of
        None \<Rightarrow> Inl AssertionError
      | Some values0 \<Rightarrow>
        (case trial_values trial1 of
          None \<Rightarrow> Inl AssertionError
        | Some values1 \<Rightarrow>
          if length values0 \<noteq> length values1
          then Inl (ValueError ''Trials with different numbers of objectives'')
          else if length values0 \<noteq> length directions
          then Inl (ValueError ''The number of the values and the number of the objectives'')
          else
            let normalized_values0 = map2 normalize_value values0 directions;
                normalized_values1 = map2 normalize_value values1 directions
            in if normalized_values0 = normalized_values1 then Inr False
               else Inr (list_all (\<lambda>(v0, v1). v0 \<le> v1)
                          (zip normalized_values0 normalized_values1))))"

definition get_feasible_trials :: "FrozenTrial list \<Rightarrow> FrozenTrial list" where
  "get_feasible_trials trials =
     filter (\<lambda>trial. case map_of (system_attrs trial) CONSTRAINTS_KEY of
                       None \<Rightarrow> True
                     | Some constraints \<Rightarrow> list_all (\<lambda>x. x \<le> Fin 0) constraints)
            trials"

text \<open>
  The sort key of the two-objective extraction. The subscripts raise when the trial has
  no values (\<open>None\<close> is not subscriptable) or when there are fewer than two values or
  directions.
\<close>

definition sort_key_2d ::
  "StudyDirection list \<Rightarrow> FrozenTrial \<Rightarrow> error + (pyfloat \<times> pyfloat)" where
  "sort_key_2d directions trial =
     (case trial_values trial of
        None \<Rightarrow> Inl TypeError
      | Some vs \<Rightarrow>
          if length vs < 2 \<or> length directions < 2 then Inl IndexError
          else Inr (normalize_value (vs ! 0) (directions ! 0),
                    normalize_value (vs ! 1) (directions ! 1)))"

text \<open>The keys of all the trials, in order; the first exception ends the sort.\<close>

fun keyed :: "('a \<Rightarrow> error + 'k) \<Rightarrow> 'a list \<Rightarrow> error + ('k \<times> 'a) list" where
  "keyed f [] = Inr []"
| "keyed f (x # xs) =
     (case f x of
        Inl e \<Rightarrow> Inl e
      | Inr k \<Rightarrow> (case keyed f xs of Inl e \<Rightarrow> Inl e | Inr ks \<Rightarrow> Inr ((k, x) # ks)))"

text \<open>The sweep over the sorted trials, from the second one on.\<close>

fun sweep_2d ::
  "FrozenTrial \<Rightarrow> FrozenTrial list \<Rightarrow> StudyDirection list \<Rightarrow> FrozenTrial list
   \<Rightarrow> error + FrozenTrial list" where
  "sweep_2d last_nondominated_trial [] directions pareto_front = Inr pareto_front"
| "sweep_2d last_nondominated_trial (trial # rest) directions pareto_front =
     (case dominates last_nondominated_trial trial directions of
        Inl e \<Rightarrow> Inl e
      | Inr True \<Rightarrow> sweep_2d last_nondominated_trial rest directions pareto_front
      | Inr False \<Rightarrow> sweep_2d trial rest directions (pareto_front @ [trial]))"

definition get_pareto_front_trials_2d ::
  "FrozenTrial list \<Rightarrow> StudyDirection list \<Rightarrow> bool \<Rightarrow> error + FrozenTrial list" where
  "get_pareto_front_trials_2d trials0 directions consider_constraint =
     (let trials1 = filter (\<lambda>t. state t = COMPLETE) trials0;
          trials2 = (if consider_constraint then get_feasible_trials trials1 else trials1)
      in if length trials2 = 0 then Inr []
         else case keyed (sort_key_2d directions) trials2 of
           Inl e \<Rightarrow> Inl e
         | Inr ks \<Rightarrow>
            (case map snd (sort_key fst ks) of
               [] \<Rightarrow> Inr []
             | first # rest \<Rightarrow>
                (case sweep_2d first rest directions [first] of
                   Inl e \<Rightarrow> Inl e
                 | Inr pareto_front \<Rightarrow> Inr (sort_key number pareto_front))))"

subsection \<open>Front detection\<close>

text \<open>\<open>np.any(row < first)\<close> for one row of \<open>loss_values < loss_values[0]\<close>.\<close>

definition any_less :: "'a::linorder list \<Rightarrow> 'a list \<Rightarrow> bool" where
  "any_less r r0 = list_ex (\<lambda>(a, b). a < b) (zip r r0)"

lemma any_less_refl: "\<not> any_less r r"
  by (induction r) (simp_all add: any_less_def)

lemma length_compress_le: "length (compress msk xs) \<le> length xs"
proof -
  have "length (filter fst (zip msk xs)) \<le> length (zip msk xs)"
    by (rule length_filter_le)
  then show ?thesis by (simp add: compress_def)
qed

function is_pareto_front_nd_loop ::
  "'a::linorder list list \<Rightarrow> nat list \<Rightarrow> bool list \<Rightarrow> bool list" where
  "is_pareto_front_nd_loop [] nondominated_indices on_front = on_front"
| "is_pareto_front_nd_loop (r0 # rest) nondominated_indices on_front =
     (let nondominated_and_not_top = map (\<lambda>r. any_less r r0) (r0 # rest)
      in is_pareto_front_nd_loop
           (compress nondominated_and_not_top (r0 # rest))
           (compress nondominated_and_not_top nondominated_indices)
           (on_front[hd nondominated_indices := True]))"
  by pat_completeness auto
termination
proof (relation "measure (\<lambda>(lv, idx, fr). length lv)")
  show "wf (measure (\<lambda>(lv, idx, fr). length lv))" by simp
next
  fix r0 :: "'a list" and rest idx fr x
  assume "x = map (\<lambda>r. any_less r r0) (r0 # rest)"
  then have "compress x (r0 # rest) = compress (map (\<lambda>r. any_less r r0) rest) rest"
    by (simp add: compress_def any_less_refl)
  then have "length (compress x (r0 # rest)) \<le> length rest"
    by (simp add: length_compress_le)
  then show "((compress x (r0 # rest), compress x idx, fr[hd idx := True]), r0 # rest, idx, fr)
          \<in> measure (\<lambda>(lv, idx, fr). length lv)"
    by simp
qed

definition is_pareto_front_nd :: "'a::linorder matrix \<Rightarrow> bool list" where
  "is_pareto_front_nd unique_lexsorted_loss_values =
     (let loss_values = rows unique_lexsorted_loss_values;
          n_trials = length loss_values;
          on_front = replicate n_trials False;
          nondominated_indices = [0..<n_trials]
      in is_pareto_front_nd_loop loss_values nondominated_indices on_front)"

definition is_pareto_front_2d :: "'a::linorder matrix \<Rightarrow> bool list" where
  "is_pareto_front_2d unique_lexsorted_loss_values =
     (let n_trials = length (rows unique_lexsorted_loss_values);
          value1 = map (\<lambda>r. r ! 1) (rows unique_lexsorted_loss_values);
          cummin_value1 = minimum_accumulate value1;
          is_value1_min = map2 (=) cummin_value1 value1;
          is_value1_new_min = map2 (<) (tl cummin_value1) (butlast cummin_value1);
          on_front = replicate n_trials True
      in take 1 on_front @ map2 (\<and>) (tl is_value1_min) is_value1_new_min)"

text \<open>
  With one objective the first row is read, \<open>unique_lexsorted_loss_values[0]\<close>, which
  raises on an array without rows.
\<close>

definition is_pareto_front :: "'a::linorder matrix \<Rightarrow> error + bool list" where
  "is_pareto_front unique_lexsorted_loss_values =
     (if ncols unique_lexsorted_loss_values = 1 then
        (case rows unique_lexsorted_loss_values of
           [] \<Rightarrow> Inl IndexError
         | r0 # rest \<Rightarrow>
             Inr (map (\<lambda>r. r ! 0 = r0 ! 0) (rows unique_lexsorted_loss_values)))
      else if ncols unique_lexsorted_loss_values = 2 then
        Inr (is_pareto_front_2d unique_lexsorted_loss_values)
      else Inr (is_pareto_front_nd unique_lexsorted_loss_values))"

subsection \<open>Ranking\<close>

text \<open>\<open>n_below or n\<close>: the length stands in for \<open>None\<close> and for \<open>0\<close>.\<close>

definition or_len :: "int option \<Rightarrow> nat \<Rightarrow> int" where
  "or_len n_below n =
     (case n_below of None \<Rightarrow> int n | Some k \<Rightarrow> if k = 0 then int n else k)"

text \<open>
  The layering loop of \<open>_calculate_nondomination_rank\<close>. Nothing bounds the number of
  its iterations, so the loop is a partial function: \<open>None\<close> is a run that never ends.
  It returns the ranks, the rank counter and the indices still unranked at the exit.
\<close>

partial_function (option) rank_loop ::
  "nat \<Rightarrow> int \<Rightarrow> int list \<Rightarrow> int \<Rightarrow> nat list \<Rightarrow> 'a::linorder matrix
   \<Rightarrow> (error + int list \<times> int \<times> nat list) option" where
  "rank_loop n_unique n_below ranks rank indices unique_lexsorted_loss_values =
     (if int n_unique - int (length indices) < n_below then
        (case is_pareto_front unique_lexsorted_loss_values of
           Inl e \<Rightarrow> Some (Inl e)
         | Inr on_front \<Rightarrow>
             rank_loop n_unique n_below
               (assign_at ranks (compress on_front indices) rank)
               (rank + 1)
               (compress (map Not on_front) indices)
               (mcompress (map Not on_front) unique_lexsorted_loss_values))
      else Some (Inr (ranks, rank, indices)))"

declare rank_loop.simps [code]

definition calculate_nondomination_rank ::
  "'a::linorder matrix \<Rightarrow> int option \<Rightarrow> (error + int list) option" where
  "calculate_nondomination_rank loss_values n_below =
     (if n_below \<noteq> None \<and> the n_below \<le> 0
      then Some (Inr (replicate (length (rows loss_values)) 0))
      else
        let n_below1 = or_len n_below (length (rows loss_values));
            n_below2 = min n_below1 (int (length (rows loss_values)))
        in if ncols loss_values = 1
           then Some (Inr (map int (snd (np_unique (map (\<lambda>r. r ! 0) (rows loss_values))))))
           else
             let (u, order_inv) = np_unique (rows loss_values);
                 n_unique = length u
             in case rank_loop n_unique n_below2 (replicate n_unique 0) 0 [0..<n_unique]
                       \<lparr>ncols = ncols loss_values, rows = u\<rparr> of
                  None \<Rightarrow> None
                | Some (Inl e) \<Rightarrow> Some (Inl e)
                | Some (Inr (ranks, rank, indices)) \<Rightarrow>
                    Some (Inr (map (\<lambda>i. assign_at ranks indices rank ! i) order_inv)))"

text \<open>
  Sequencing of calls that may raise or never return: the rest of the caller runs on the
  value returned.
\<close>

definition and_then ::
  "(error + 'a) option \<Rightarrow> ('a \<Rightarrow> (error + 'b) option) \<Rightarrow> (error + 'b) option" where
  "and_then r k = (case r of None \<Rightarrow> None | Some (Inl e) \<Rightarrow> Some (Inl e) | Some (Inr x) \<Rightarrow> k x)"

definition fast_non_dominated_sort ::
  "'a::linorder matrix \<Rightarrow> npfloat list option \<Rightarrow> int option \<Rightarrow> (error + int list) option"
  where
  "fast_non_dominated_sort loss_values penalty_opt n_below0 =
     (case penalty_opt of
        None \<Rightarrow> calculate_nondomination_rank loss_values n_below0
      | Some penalty \<Rightarrow>
        (if length penalty \<noteq> length (rows loss_values)
         then Some (Inl (ValueError ''The length of penalty and loss_values must be same''))
         else
          (let nondomination_rank0 = replicate (length (rows loss_values)) (- 1);
               is_penalty_nan = map isnan penalty;
               n_below1 = or_len n_below0 (length (rows loss_values));
               is_feasible = map2 (\<and>) (map Not is_penalty_nan) (map le_zero penalty)
           in and_then
                (calculate_nondomination_rank (mcompress is_feasible loss_values)
                   (Some n_below1))
                (\<lambda>ranks_feasible.
          (let nondomination_rank1 =
                 assign_mask nondomination_rank0 is_feasible ranks_feasible;
               n_below2 = n_below1 - int (count_nonzero is_feasible);
               top_rank_in_infeasible =
                 max_initial (compress is_feasible nondomination_rank1) (- 1) + 1;
               is_infeasible = map2 (\<and>) (map Not is_penalty_nan) (map gt_zero penalty);
               n_infeasible = count_nonzero is_infeasible
           in and_then
                (Some (array_truth (map (\<lambda>b. (0::int) < of_bool b) is_infeasible)))
                (\<lambda>guard.
          (let ranks_in_infeas =
                 snd (np_unique (map num_of (compress is_infeasible penalty)));
               nondomination_rank2 =
                 (if guard
                  then assign_mask nondomination_rank1 is_infeasible
                         (map (\<lambda>r. int r + top_rank_in_infeasible) ranks_in_infeas)
                  else nondomination_rank1);
               n_below3 = (if guard then n_below2 - int n_infeasible else n_below2);
               top_rank_in_penalty_nan =
                 max_initial (compress (map Not is_penalty_nan) nondomination_rank2) (- 1) + 1
           in and_then
                (calculate_nondomination_rank (mcompress is_penalty_nan loss_values)
                   (Some n_below3))
                (\<lambda>ranks_in_penalty_nan.
                   Some (Inr (assign_mask nondomination_rank2 is_penalty_nan
                               (map (\<lambda>r. r + top_rank_in_penalty_nan)
                                  ranks_in_penalty_nan)))))))))))"

section \<open>Inputs of the scenarios\<close>

text \<open>A completed trial with two finite objective values and no attributes.\<close>

definition complete_trial :: "nat \<Rightarrow> real \<Rightarrow> real \<Rightarrow> FrozenTrial" where
  "complete_trial n a b =
     \<lparr>number = n, state = COMPLETE, trial_values = Some [Some (Fin a), Some (Fin b)],
      system_attrs = []\<rparr>"

text \<open>
  Dominance between two value vectors, in the words of the specification: elementwise less or
  equal, and not equal.
\<close>

definition vec_dominates :: "'a::linorder list \<Rightarrow> 'a list \<Rightarrow> bool" where
  "vec_dominates a b = (list_all2 (\<le>) a b \<and> a \<noteq> b)"

text \<open>The vector at position \<open>k\<close> is dominated by no vector of the array.\<close>

definition nondominated :: "'a::linorder list list \<Rightarrow> nat \<Rightarrow> bool" where
  "nondominated U k = (\<not> (\<exists>j<length U. vec_dominates (U ! j) (U ! k)))"

text \<open>
  Two notions for reasoning about the layering loop. A unique row is on the front of the
  rows still unranked when none of them dominates it. The loop invariant: the unranked
  indices are increasing positions of the unique array, the rank counter is at most the
  number of ranked rows and, when positive, at most the budget, every ranked row has a
  rank below the counter, and whatever dominates a ranked row was ranked before it with a
  smaller rank.
\<close>

definition live_front :: "'a::linorder list list \<Rightarrow> nat list \<Rightarrow> nat \<Rightarrow> bool" where
  "live_front U indices i = (\<not> (\<exists>j\<in>set indices. vec_dominates (U ! j) (U ! i)))"

definition rank_inv ::
  "'a::linorder list list \<Rightarrow> int \<Rightarrow> int list \<Rightarrow> int \<Rightarrow> nat list \<Rightarrow> bool" where
  "rank_inv U n_below ranks rank indices =
     (sorted_wrt (<) indices \<and> set indices \<subseteq> {..<length U} \<and> length ranks = length U
      \<and> 0 \<le> rank \<and> rank \<le> int (length U) - int (length indices)
      \<and> (rank = 0 \<or> rank \<le> n_below)
      \<and> (\<forall>k<length U. k \<notin> set indices \<longrightarrow> 0 \<le> ranks ! k \<and> ranks ! k < rank)
      \<and> (\<forall>j<length U. \<forall>k<length U. k \<notin> set indices \<longrightarrow> vec_dominates (U ! j) (U ! k)
            \<longrightarrow> j \<notin> set indices \<and> ranks ! j < ranks ! k))"

text \<open>The distinct ranks of a rank array that lie below the rank \<open>r\<close>.\<close>

definition ranks_below :: "int \<Rightarrow> int list \<Rightarrow> int list" where
  "ranks_below r out = remdups (filter (\<lambda>x. x < r) out)"

section \<open>Value normalisation\<close>

text \<open>
  C4: under MAXIMIZE the absent value is normalised to minus infinity, the best value of
  the lower-is-better convention, and not to plus infinity: \<open>None\<close> is replaced by plus
  infinity, the worst value, and the negation for MAXIMIZE is then applied to it. A
  completed trial without a value so dominates one with the value 100.
\<close>

theorem normalize_value_None_MAXIMIZE_best:
  "normalize_value None MAXIMIZE = MInf
   \<and> normalize_value None MAXIMIZE \<noteq> PInf
   \<and> (\<forall>x. normalize_value None MAXIMIZE \<le> x)
   \<and> dominates
        \<lparr>number = 0, state = COMPLETE, trial_values = Some [None], system_attrs = []\<rparr>
        \<lparr>number = 1, state = COMPLETE, trial_values = Some [Some (Fin 100)],
         system_attrs = []\<rparr>
        [MAXIMIZE] = Inr True"
  by (simp add: normalize_value_def dominates_def less_eq_pyfloat_def)

section \<open>Shape mismatches\<close>

text \<open>
  C10: \<open>_dominates\<close> on two COMPLETE trials raises a ValueError when the two value
  vectors differ in length or when their length differs from the number of directions,
  and \<open>_fast_non_dominated_sort\<close> raises a ValueError when the penalty array and the loss
  values differ in length; no result is returned in either case.
\<close>

theorem shape_mismatch_raises:
  "(state trial0 = COMPLETE \<and> state trial1 = COMPLETE
      \<and> trial_values trial0 = Some values0 \<and> trial_values trial1 = Some values1
      \<and> (length values0 \<noteq> length values1 \<or> length values0 \<noteq> length directions)
     \<longrightarrow> (\<exists>msg. dominates trial0 trial1 directions = Inl (ValueError msg)))
   \<and> (length penalty \<noteq> length (rows loss_values)
     \<longrightarrow> (\<exists>msg. fast_non_dominated_sort loss_values (Some penalty) n_below
                 = Some (Inl (ValueError msg))))"
  by (simp add: dominates_def fast_non_dominated_sort_def)

theorem shape_mismatch_raises_witness:
  "(\<exists>msg. dominates (complete_trial 0 1 2) (complete_trial 1 3 4)
             [MINIMIZE, MINIMIZE, MINIMIZE] = Inl (ValueError msg))
   \<and> (\<exists>msg. fast_non_dominated_sort \<lparr>ncols = 2, rows = [[1, 1], [2, 2 :: real]]\<rparr>
               (Some [Num (Fin 0)]) None = Some (Inl (ValueError msg)))"
  using shape_mismatch_raises
    [of "complete_trial 0 1 2" "complete_trial 1 3 4"
        "[Some (Fin 1), Some (Fin 2)]" "[Some (Fin 3), Some (Fin 4)]"
        "[MINIMIZE, MINIMIZE, MINIMIZE]" "[Num (Fin 0)]"
        "\<lparr>ncols = 2, rows = [[1, 1], [2, 2 :: real]]\<rparr>" None]
  by (simp add: complete_trial_def)

section \<open>The scenarios\<close>

text \<open>
  C5, as stated, fails: on the five trials of scenario A the extraction does not return
  the trial with values (2,3), which (2,2) dominates.
\<close>

theorem pareto_front_scenario_A_counterexample:
  "\<not> (\<exists>front. get_pareto_front_trials_2d
          [complete_trial 0 1 4, complete_trial 1 2 3, complete_trial 2 3 2,
           complete_trial 3 4 1, complete_trial 4 2 2] [MINIMIZE, MINIMIZE] False = Inr front
        \<and> set front = {complete_trial 0 1 4, complete_trial 1 2 3, complete_trial 4 2 2,
                        complete_trial 3 4 1})"
proof -
  have ev: "get_pareto_front_trials_2d
          [complete_trial 0 1 4, complete_trial 1 2 3, complete_trial 2 3 2,
           complete_trial 3 4 1, complete_trial 4 2 2] [MINIMIZE, MINIMIZE] False
        = Inr [complete_trial 0 1 4, complete_trial 3 4 1, complete_trial 4 2 2]"
    by code_simp
  have "complete_trial 1 2 3 \<notin>
          set [complete_trial 0 1 4, complete_trial 3 4 1, complete_trial 4 2 2]"
    by (simp add: complete_trial_def)
  with ev show ?thesis by auto
qed

text \<open>
  C5 (amended): for the two-objective MINIMIZE/MINIMIZE input with values (1,4), (2,3),
  (3,2), (4,1), (2,2), the extraction returns exactly the trials with values (1,4),
  (4,1) and (2,2), in arrival order; (2,3) and (3,2) are excluded.
\<close>

theorem pareto_front_scenario_A:
  "get_pareto_front_trials_2d
     [complete_trial 0 1 4, complete_trial 1 2 3, complete_trial 2 3 2,
      complete_trial 3 4 1, complete_trial 4 2 2] [MINIMIZE, MINIMIZE] False
   = Inr [complete_trial 0 1 4, complete_trial 3 4 1, complete_trial 4 2 2]"
  by code_simp

text \<open>
  C6, as stated, fails: the ranks of the single-objective input [5, 3, 3, 7] are not
  [2, 0, 0, 3].
\<close>

theorem rank_scenario_B_counterexample:
  "calculate_nondomination_rank \<lparr>ncols = 1, rows = [[5], [3], [3], [7 :: real]]\<rparr> None
   \<noteq> Some (Inr [2, 0, 0, 3])"
  by code_simp

text \<open>
  C6 (amended): for the single-objective input [5, 3, 3, 7] with no n_below, the rank
  calculator returns [1, 0, 0, 2], the dense rank by value.
\<close>

theorem rank_scenario_B:
  "calculate_nondomination_rank \<lparr>ncols = 1, rows = [[5], [3], [3], [7 :: real]]\<rparr> None
   = Some (Inr [1, 0, 0, 2])"
  by code_simp

text \<open>
  C1: on scenario C (feasible (1,1) and (2,2), infeasible (0,0) with penalty 3) the
  constrained ranking raises at the guard of its second phase instead of returning the
  ranks 0, 1 and 2.
\<close>

theorem constrained_rank_scenario_C_raises:
  "fast_non_dominated_sort \<lparr>ncols = 2, rows = [[1, 1], [2, 2], [0, 0 :: real]]\<rparr>
     (Some [Num (Fin 0), Num (Fin (- 1)), Num (Fin 3)]) None
   = Some (Inl (ValueError ''The truth value of an array''))"
  by code_simp

text \<open>
  C2: with two feasible records the constrained ranking raises, while the ranking
  without penalties and the plain rank calculator both return the ranks 0 and 1.
\<close>

theorem constrained_rank_all_feasible_raises:
  "fast_non_dominated_sort \<lparr>ncols = 2, rows = [[1, 1], [2, 2 :: real]]\<rparr>
     (Some [Num (Fin 0), Num (Fin 0)]) None
     = Some (Inl (ValueError ''The truth value of an array''))
   \<and> fast_non_dominated_sort \<lparr>ncols = 2, rows = [[1, 1], [2, 2 :: real]]\<rparr> None None
     = Some (Inr [0, 1])
   \<and> calculate_nondomination_rank \<lparr>ncols = 2, rows = [[1, 1], [2, 2 :: real]]\<rparr> None
     = Some (Inr [0, 1])"
  by code_simp

section \<open>The front detector\<close>

text \<open>
  The array handed to the detector is deduplicated and lexicographically ordered: its rows
  are strictly increasing in the lexicographic order.
\<close>

lemma compress_map_self: "compress (map P xs) xs = filter P xs"
  by (induction xs) (simp_all add: compress_def)

lemma compress_map_map:
  "compress (map Q (map f xs)) xs = filter (\<lambda>x. Q (f x)) xs"
  by (induction xs) (simp_all add: compress_def)

lemma compress_map_map2:
  "compress (map Q (map f xs)) (map f xs) = map f (filter (\<lambda>x. Q (f x)) xs)"
  by (induction xs) (simp_all add: compress_def)

lemma any_less_iff:
  "length r = length t \<Longrightarrow> any_less r t \<longleftrightarrow> \<not> list_all2 (\<le>) t r"
proof (induction r t rule: list_induct2)
  case Nil
  then show ?case by (simp add: any_less_def)
next
  case (Cons x xs y ys)
  then show ?case by (auto simp add: any_less_def)
qed

lemma vec_dominates_less:
  "vec_dominates a b \<Longrightarrow> a < b"
proof -
  have "list_all2 (\<le>) a b \<Longrightarrow> a \<noteq> b \<Longrightarrow> a < b"
    by (induction a b rule: list_all2_induct) auto
  then show "vec_dominates a b \<Longrightarrow> a < b" by (simp add: vec_dominates_def)
qed

lemma list_all2_le_trans:
  "list_all2 (\<le>) a b \<Longrightarrow> list_all2 (\<le>) b c \<Longrightarrow> list_all2 (\<le>) a (c :: 'a::linorder list)"
  by (rule list_all2_trans[where ?P1.0="(\<le>)" and ?P2.0="(\<le>)"]) auto

lemma strict_sorted_nth_less_iff:
  "sorted_wrt (<) (U :: 'a::linorder list) \<Longrightarrow> j < length U \<Longrightarrow> k < length U \<Longrightarrow> U ! j < U ! k \<longleftrightarrow> j < k"
  by (metis linorder_neqE_nat not_less_iff_gr_or_eq sorted_wrt_nth_less)


lemma nd_loop_spec:
  fixes U :: "'a::linorder list list"
  assumes U: "sorted_wrt (<) U" "\<forall>r\<in>set U. length r = d"
  shows "sorted_wrt (<) idx \<Longrightarrow> set idx \<subseteq> {..<length U} \<Longrightarrow> length fr = length U
    \<Longrightarrow> (\<forall>k<length U. k \<notin> set idx \<longrightarrow> (\<forall>i\<in>set idx. \<not> list_all2 (\<le>) (U ! k) (U ! i)))
    \<Longrightarrow> (\<forall>k<length U. fr ! k \<longrightarrow> k \<notin> set idx \<and> nondominated U k)
    \<Longrightarrow> (\<forall>k<length U. k \<notin> set idx \<longrightarrow> \<not> fr ! k \<longrightarrow> \<not> nondominated U k)
    \<Longrightarrow> length (is_pareto_front_nd_loop (map ((!) U) idx) idx fr) = length U
        \<and> (\<forall>k<length U. is_pareto_front_nd_loop (map ((!) U) idx) idx fr ! k
                            \<longleftrightarrow> nondominated U k)"
proof (induction "length idx" arbitrary: idx fr rule: less_induct)
  case less
  show ?case
  proof (cases idx)
    case Nil
    with less.prems show ?thesis by auto
  next
    case (Cons i0 rest)
    let ?keep = "\<lambda>i. any_less (U ! i) (U ! i0)"
    let ?idx' = "filter ?keep idx"
    let ?fr' = "fr[i0 := True]"
    have i0: "i0 < length U" using less.prems(2) Cons by auto
    have len: "\<And>i. i < length U \<Longrightarrow> length (U ! i) = d" using U(2) by auto
    have keep_iff: "\<And>i. i < length U \<Longrightarrow> ?keep i \<longleftrightarrow> \<not> list_all2 (\<le>) (U ! i0) (U ! i)"
      using any_less_iff len i0 by metis
    have step: "is_pareto_front_nd_loop (map ((!) U) idx) idx fr
        = is_pareto_front_nd_loop (map ((!) U) ?idx') ?idx' ?fr'"
    proof -
      have lv: "map ((!) U) idx = U ! i0 # map ((!) U) rest" using Cons by simp
      have hd: "hd idx = i0" using Cons by simp
      have "is_pareto_front_nd_loop (map ((!) U) idx) idx fr
          = is_pareto_front_nd_loop
              (compress (map (\<lambda>r. any_less r (U ! i0)) (map ((!) U) idx)) (map ((!) U) idx))
              (compress (map (\<lambda>r. any_less r (U ! i0)) (map ((!) U) idx)) idx)
              (fr[hd idx := True])"
        unfolding lv by (simp only: is_pareto_front_nd_loop.simps Let_def)
      then show ?thesis
        by (simp only: compress_map_map compress_map_map2 hd)
    qed
    have notkeep0: "\<not> ?keep i0" by (rule any_less_refl)
    have sub: "set ?idx' \<subseteq> set rest" using Cons notkeep0 by auto
    have shorter: "length ?idx' < length idx"
    proof -
      have "?idx' = filter ?keep rest" using Cons notkeep0 by simp
      then have "length ?idx' \<le> length rest" by simp
      then show ?thesis using Cons by simp
    qed
    have s1: "sorted_wrt (<) ?idx'" using less.prems(1) by (rule sorted_wrt_filter)
    have s2: "set ?idx' \<subseteq> {..<length U}" using less.prems(2) by auto
    have s3: "length ?fr' = length U" using less.prems(3) by simp
    have i0_least: "\<And>j. j \<in> set idx \<Longrightarrow> i0 \<le> j"
      using less.prems(1) Cons by auto
    have s4: "\<forall>k<length U. k \<notin> set ?idx' \<longrightarrow> (\<forall>i\<in>set ?idx'. \<not> list_all2 (\<le>) (U ! k) (U ! i))"
    proof (intro allI impI ballI)
      fix k i assume k: "k < length U" "k \<notin> set ?idx'" and i: "i \<in> set ?idx'"
      have ii: "i \<in> set idx" "?keep i" using i by auto
      have il: "i < length U" using ii less.prems(2) by auto
      show "\<not> list_all2 (\<le>) (U ! k) (U ! i)"
      proof (cases "k \<in> set idx")
        case False
        then show ?thesis using less.prems(4) k ii by blast
      next
        case True
        then have "\<not> ?keep k" using k by auto
        then have a: "list_all2 (\<le>) (U ! i0) (U ! k)" using keep_iff k by blast
        have b: "\<not> list_all2 (\<le>) (U ! i0) (U ! i)" using keep_iff il ii by blast
        show ?thesis using a b list_all2_le_trans by blast
      qed
    qed
    have nd0: "nondominated U i0"
      unfolding nondominated_def
    proof
      assume "\<exists>j<length U. vec_dominates (U ! j) (U ! i0)"
      then obtain j where j: "j < length U" "vec_dominates (U ! j) (U ! i0)" by blast
      then have "U ! j < U ! i0" by (simp add: vec_dominates_less)
      then have ji: "j < i0" using strict_sorted_nth_less_iff U(1) j(1) i0 by blast
      then have "j \<notin> set idx" using i0_least by fastforce
      then have "\<not> list_all2 (\<le>) (U ! j) (U ! i0)"
        using less.prems(4) j(1) Cons by auto
      then show False using j(2) by (simp add: vec_dominates_def)
    qed
    have s5: "\<forall>k<length U. ?fr' ! k \<longrightarrow> k \<notin> set ?idx' \<and> nondominated U k"
    proof (intro allI impI)
      fix k assume k: "k < length U" "?fr' ! k"
      show "k \<notin> set ?idx' \<and> nondominated U k"
      proof (cases "k = i0")
        case True
        then show ?thesis using nd0 notkeep0 by simp
      next
        case False
        then have "fr ! k" using k by simp
        then show ?thesis using less.prems(5) k by auto
      qed
    qed
    have s6: "\<forall>k<length U. k \<notin> set ?idx' \<longrightarrow> \<not> ?fr' ! k \<longrightarrow> \<not> nondominated U k"
    proof (intro allI impI)
      fix k assume k: "k < length U" "k \<notin> set ?idx'" "\<not> ?fr' ! k"
      have kne: "k \<noteq> i0" using k i0 less.prems(3) by auto
      then have nfr: "\<not> fr ! k" using k by simp
      show "\<not> nondominated U k"
      proof (cases "k \<in> set idx")
        case False
        then show ?thesis using less.prems(6) k nfr by blast
      next
        case True
        then have "\<not> ?keep k" using k by auto
        then have a: "list_all2 (\<le>) (U ! i0) (U ! k)" using keep_iff k by blast
        have "U ! i0 \<noteq> U ! k"
          using strict_sorted_nth_less_iff[OF U(1) i0 k(1)]
                strict_sorted_nth_less_iff[OF U(1) k(1) i0] kne
          by (metis less_irrefl linorder_neqE_nat)
        then have "vec_dominates (U ! i0) (U ! k)" using a by (simp add: vec_dominates_def)
        then show ?thesis using i0 by (auto simp add: nondominated_def)
      qed
    qed
    show ?thesis
      unfolding step
      using less.hyps[OF shorter s1 s2 s3 s4 s5 s6] .
  qed
qed


lemma nondominated_first:
  "sorted_wrt (<) (U :: 'a::linorder list list) \<Longrightarrow> 0 < length U \<Longrightarrow> nondominated U 0"
  unfolding nondominated_def
  using strict_sorted_nth_less_iff vec_dominates_less by blast

lemma is_pareto_front_nd_spec:
  fixes m :: "'a::linorder matrix"
  assumes "sorted_wrt (<) (rows m)" "wf_matrix m"
  shows "length (is_pareto_front_nd m) = length (rows m)
       \<and> (\<forall>k<length (rows m). is_pareto_front_nd m ! k \<longleftrightarrow> nondominated (rows m) k)"
proof -
  have len: "\<forall>r\<in>set (rows m). length r = ncols m"
    using assms(2) by (simp add: wf_matrix_def list_all_iff)
  have "length (is_pareto_front_nd_loop (map ((!) (rows m)) [0..<length (rows m)])
                  [0..<length (rows m)] (replicate (length (rows m)) False)) = length (rows m)
      \<and> (\<forall>k<length (rows m).
            is_pareto_front_nd_loop (map ((!) (rows m)) [0..<length (rows m)])
              [0..<length (rows m)] (replicate (length (rows m)) False) ! k
            \<longleftrightarrow> nondominated (rows m) k)"
    by (rule nd_loop_spec[OF assms(1) len]) auto
  then show ?thesis by (simp add: is_pareto_front_nd_def map_nth Let_def)
qed

lemma length_cummin_from [simp]: "length (cummin_from m xs) = length xs"
  by (induction xs arbitrary: m) simp_all

lemma length_minimum_accumulate [simp]: "length (minimum_accumulate xs) = length xs"
  by (cases xs) simp_all

lemma cummin_from_nth:
  "i < length xs \<Longrightarrow> cummin_from m xs ! i = min m (Min (set (take (Suc i) xs)))"
proof (induction xs arbitrary: m i)
  case Nil
  then show ?case by simp
next
  case (Cons x xs)
  show ?case
  proof (cases i)
    case 0
    then show ?thesis by simp
  next
    case (Suc i')
    then have "i' < length xs" using Cons.prems by simp
    then have "cummin_from (min m x) xs ! i' = min (min m x) (Min (set (take (Suc i') xs)))"
      by (rule Cons.IH)
    moreover have "set (take (Suc i') xs) \<noteq> {}" using \<open>i' < length xs\<close> by (cases xs) auto
    ultimately show ?thesis using Suc by (simp add: min.assoc)
  qed
qed

lemma minimum_accumulate_nth:
  "i < length xs \<Longrightarrow> minimum_accumulate xs ! i = Min (set (take (Suc i) xs))"
proof (cases xs)
  case Nil
  then show "i < length xs \<Longrightarrow> ?thesis" by simp
next
  case (Cons x xs')
  assume i: "i < length xs"
  show ?thesis
  proof (cases i)
    case 0
    then show ?thesis using Cons by simp
  next
    case (Suc i')
    then have i': "i' < length xs'" using i Cons by simp
    then have ne: "set (take (Suc i') xs') \<noteq> {}" by (cases xs') auto
    show ?thesis using Cons Suc cummin_from_nth[OF i', of x] ne by simp
  qed
qed

lemma set_take_Suc_nth:
  "i < length xs \<Longrightarrow> set (take (Suc i) xs) = {xs ! j | j. j \<le> i}"
proof -
  assume i: "i < length xs"
  then have "set (take (Suc i) xs) = (!) xs ` {0..<Suc i}"
    by (simp add: nth_image)
  also have "\<dots> = {xs ! j | j. j \<le> i}"
    by (auto simp add: less_Suc_eq_le)
  finally show ?thesis .
qed

lemma is_pareto_front_2d_nth:
  fixes m :: "'a::linorder matrix"
  assumes k: "k < length (rows m)"
  shows "length (is_pareto_front_2d m) = length (rows m)"
    and "is_pareto_front_2d m ! k
          \<longleftrightarrow> (k = 0 \<or> (\<forall>j<k. rows m ! k ! 1 < rows m ! j ! 1))"
proof -
  define v where "v = map (\<lambda>r. r ! 1) (rows m)"
  define cm where "cm = minimum_accumulate v"
  define n where "n = length (rows m)"
  have lv: "length v = n" "length cm = n" by (simp_all add: v_def cm_def n_def)
  have n: "0 < n" "k < n" using k by (auto simp add: n_def)
  have res: "is_pareto_front_2d m
      = take 1 (replicate n True) @ map2 (\<and>) (tl (map2 (=) cm v)) (map2 (<) (tl cm) (butlast cm))"
    by (simp add: is_pareto_front_2d_def Let_def v_def cm_def n_def)
  have t1: "take 1 (replicate n True) = [True]" using n(1) by (cases n) simp_all
  have l2: "length (map2 (\<and>) (tl (map2 (=) cm v)) (map2 (<) (tl cm) (butlast cm))) = n - 1"
    using lv by simp
  show "length (is_pareto_front_2d m) = length (rows m)"
    using res t1 l2 n(1) by (simp add: n_def)
  show "is_pareto_front_2d m ! k
          \<longleftrightarrow> (k = 0 \<or> (\<forall>j<k. rows m ! k ! 1 < rows m ! j ! 1))"
  proof (cases k)
    case 0
    then show ?thesis using res t1 by simp
  next
    case (Suc k')
    have k': "k' < n - 1" "k' < n" "Suc k' < n" using Suc n by auto
    have a: "is_pareto_front_2d m ! k
         = (cm ! Suc k' = v ! Suc k' \<and> cm ! Suc k' < cm ! k')"
      using res t1 Suc k' lv by (simp add: nth_tl nth_butlast)
    have cmk': "cm ! k' = Min (set (take (Suc k') v))"
      unfolding cm_def using k'(2) lv by (simp add: minimum_accumulate_nth)
    have cmk: "cm ! Suc k' = Min (set (take (Suc (Suc k')) v))"
      unfolding cm_def using k'(3) lv by (simp add: minimum_accumulate_nth)
    have ne: "set (take (Suc k') v) \<noteq> {}" using k'(2) lv by (cases v) auto
    have tk: "take (Suc (Suc k')) v = take (Suc k') v @ [v ! Suc k']"
      using k'(3) lv by (simp add: take_Suc_conv_app_nth)
    have cmk2: "cm ! Suc k' = min (v ! Suc k') (cm ! k')"
      using cmk cmk' tk ne by simp
    have "cm ! Suc k' < cm ! k' \<longleftrightarrow> v ! Suc k' < cm ! k'"
      using cmk2 by (auto simp add: min_def)
    also have "\<dots> \<longleftrightarrow> (\<forall>a\<in>set (take (Suc k') v). v ! Suc k' < a)"
      unfolding cmk' using ne by (simp add: Min_gr_iff)
    also have "\<dots> \<longleftrightarrow> (\<forall>j\<le>k'. v ! Suc k' < v ! j)"
      using set_take_Suc_nth[of k' v] k'(2) lv by auto
    finally have b: "cm ! Suc k' < cm ! k' \<longleftrightarrow> (\<forall>j\<le>k'. v ! Suc k' < v ! j)" .
    have c: "cm ! Suc k' < cm ! k' \<Longrightarrow> cm ! Suc k' = v ! Suc k'"
      using cmk2 by (auto simp add: min_def)
    have vj: "\<And>j. j < n \<Longrightarrow> v ! j = rows m ! j ! 1" by (simp add: v_def n_def)
    have "is_pareto_front_2d m ! k \<longleftrightarrow> (\<forall>j\<le>k'. v ! Suc k' < v ! j)"
      using a b c by blast
    also have "\<dots> \<longleftrightarrow> (\<forall>j<k. rows m ! k ! 1 < rows m ! j ! 1)"
      using Suc n vj by (auto simp add: less_Suc_eq_le)
    finally show ?thesis using Suc by simp
  qed
qed


lemma length_two: "length r = 2 \<Longrightarrow> \<exists>a b. r = [a, b]"
  by (cases r; cases "tl r") auto

lemma nondominated_2d:
  fixes U :: "'a::linorder list list"
  assumes U: "sorted_wrt (<) U" "\<forall>r\<in>set U. length r = 2" and k: "k < length U"
  shows "nondominated U k \<longleftrightarrow> (k = 0 \<or> (\<forall>j<k. U ! k ! 1 < U ! j ! 1))"
proof
  assume nd: "nondominated U k"
  show "k = 0 \<or> (\<forall>j<k. U ! k ! 1 < U ! j ! 1)"
  proof (intro disjI2 allI impI)
    fix j assume j: "j < k"
    then have jl: "j < length U" using k by simp
    have "length (U ! j) = 2" using U(2) jl by simp
    then obtain a0 a1 where a: "U ! j = [a0, a1]" using length_two by blast
    have "length (U ! k) = 2" using U(2) k by simp
    then obtain b0 b1 where b: "U ! k = [b0, b1]" using length_two by blast
    have "U ! j < U ! k" using sorted_wrt_nth_less[OF U(1) j k] .
    then have lex: "a0 < b0 \<or> a0 = b0 \<and> a1 < b1" using a b by simp
    have "\<not> vec_dominates (U ! j) (U ! k)" using nd jl by (auto simp add: nondominated_def)
    then have "b1 < a1" using lex a b by (auto simp add: vec_dominates_def)
    then show "U ! k ! 1 < U ! j ! 1" using a b by simp
  qed
next
  assume r: "k = 0 \<or> (\<forall>j<k. U ! k ! 1 < U ! j ! 1)"
  show "nondominated U k"
    unfolding nondominated_def
  proof
    assume "\<exists>j<length U. vec_dominates (U ! j) (U ! k)"
    then obtain j where j: "j < length U" "vec_dominates (U ! j) (U ! k)" by blast
    then have "U ! j < U ! k" by (simp add: vec_dominates_less)
    then have jk: "j < k" using strict_sorted_nth_less_iff U(1) j(1) k by blast
    then have lt: "U ! k ! 1 < U ! j ! 1" using r by auto
    have "length (U ! j) = 2" using U(2) j(1) by simp
    then obtain a0 a1 where a: "U ! j = [a0, a1]" using length_two by blast
    have "length (U ! k) = 2" using U(2) k by simp
    then obtain b0 b1 where b: "U ! k = [b0, b1]" using length_two by blast
    show False using j(2) lt a b by (auto simp add: vec_dominates_def)
  qed
qed

lemma length_one: "length r = 1 \<Longrightarrow> \<exists>a. r = [a]"
  by (cases r) auto

lemma nondominated_1d:
  fixes U :: "'a::linorder list list"
  assumes U: "sorted_wrt (<) U" "\<forall>r\<in>set U. length r = 1" and k: "k < length U"
  shows "nondominated U k \<longleftrightarrow> U ! k ! 0 = U ! 0 ! 0"
proof (cases "k = 0")
  case True
  have "0 < length U" using k by (rule le_less_trans[OF le0])
  then have "nondominated U 0" using nondominated_first[OF U(1)] by simp
  then show ?thesis using True by simp
next
  case False
  then have k0: "0 < k" by simp
  have l0: "0 < length U" using k by (rule le_less_trans[OF le0])
  have "length (U ! 0) = 1" using U(2) l0 by simp
  then obtain a where a: "U ! 0 = [a]" using length_one by blast
  have "length (U ! k) = 1" using U(2) k by simp
  then obtain b where b: "U ! k = [b]" using length_one by blast
  have "U ! 0 < U ! k" using sorted_wrt_nth_less[OF U(1) k0 k] .
  then have ab: "a < b" using a b by simp
  then have "vec_dominates (U ! 0) (U ! k)" using a b by (auto simp add: vec_dominates_def)
  then have "\<not> nondominated U k" using l0 by (auto simp add: nondominated_def)
  then show ?thesis using a b ab by simp
qed

lemma wf_matrix_rows: "wf_matrix m \<Longrightarrow> \<forall>r\<in>set (rows m). length r = ncols m"
  by (simp add: wf_matrix_def list_all_iff)

lemma is_pareto_front_spec:
  fixes m :: "'a::linorder matrix"
  assumes wf: "wf_matrix m" and so: "sorted_wrt (<) (rows m)"
    and ne: "ncols m = 1 \<longrightarrow> rows m \<noteq> []"
  shows "\<exists>on_front. is_pareto_front m = Inr on_front
           \<and> length on_front = length (rows m)
           \<and> (\<forall>k<length (rows m). on_front ! k \<longleftrightarrow> nondominated (rows m) k)"
proof -
  consider (one) "ncols m = 1" | (two) "ncols m = 2" | (more) "ncols m \<noteq> 1" "ncols m \<noteq> 2"
    by blast
  then show ?thesis
  proof cases
    case one
    then obtain r0 rest where r: "rows m = r0 # rest" using ne by (cases "rows m") auto
    have l: "\<forall>r\<in>set (rows m). length r = 1" using wf_matrix_rows[OF wf] one by simp
    have "is_pareto_front m = Inr (map (\<lambda>r. r ! 0 = r0 ! 0) (rows m))"
      using one r by (simp add: is_pareto_front_def)
    moreover have "\<forall>k<length (rows m).
        map (\<lambda>r. r ! 0 = r0 ! 0) (rows m) ! k \<longleftrightarrow> nondominated (rows m) k"
    proof (intro allI impI)
      fix k assume k: "k < length (rows m)"
      have r0: "rows m ! 0 = r0" using r by simp
      have "map (\<lambda>r. r ! 0 = r0 ! 0) (rows m) ! k \<longleftrightarrow> rows m ! k ! 0 = rows m ! 0 ! 0"
        using k r0 by (simp only: nth_map)
      then show "map (\<lambda>r. r ! 0 = r0 ! 0) (rows m) ! k \<longleftrightarrow> nondominated (rows m) k"
        using nondominated_1d[OF so l k] by simp
    qed
    ultimately show ?thesis by simp
  next
    case two
    have l: "\<forall>r\<in>set (rows m). length r = 2" using wf_matrix_rows[OF wf] two by simp
    have "is_pareto_front m = Inr (is_pareto_front_2d m)"
      using two by (simp add: is_pareto_front_def)
    moreover have "length (is_pareto_front_2d m) = length (rows m)"
    proof (cases "rows m")
      case Nil
      then show ?thesis by (simp add: is_pareto_front_2d_def)
    next
      case (Cons a list)
      then have "0 < length (rows m)" by simp
      then show ?thesis by (rule is_pareto_front_2d_nth(1))
    qed
    moreover have "\<forall>k<length (rows m). is_pareto_front_2d m ! k \<longleftrightarrow> nondominated (rows m) k"
      using is_pareto_front_2d_nth(2) nondominated_2d[OF so l] by blast
    ultimately show ?thesis by simp
  next
    case more
    then have "is_pareto_front m = Inr (is_pareto_front_nd m)"
      by (simp add: is_pareto_front_def)
    then show ?thesis using is_pareto_front_nd_spec[OF so wf] by simp
  qed
qed


text \<open>
  C9, as stated, fails on the array without rows when there is one objective: the
  detector reads the first row and raises.
\<close>

theorem is_pareto_front_empty_1d_counterexample:
  "is_pareto_front \<lparr>ncols = 1, rows = [] :: real list list\<rparr> = Inl IndexError"
  by (simp add: is_pareto_front_def)

text \<open>
  C9 (amended): for every deduplicated, lexicographically ordered array of value vectors
  of any dimensionality, not empty when there is one objective, \<open>_is_pareto_front\<close>
  returns a boolean mask of the array's length that marks exactly the vectors dominated
  by no vector of the array; the one-, two- and many-objective variants all do.
\<close>

theorem is_pareto_front_marks_nondominated:
  fixes m :: "'a::linorder matrix"
  assumes "wf_matrix m" and "sorted_wrt (<) (rows m)" and "ncols m = 1 \<longrightarrow> rows m \<noteq> []"
  shows "\<exists>on_front. is_pareto_front m = Inr on_front
           \<and> length on_front = length (rows m)
           \<and> (\<forall>k<length (rows m). on_front ! k \<longleftrightarrow> nondominated (rows m) k)"
  using assms by (rule is_pareto_front_spec)

theorem is_pareto_front_marks_nondominated_witness:
  "\<exists>on_front.
     is_pareto_front \<lparr>ncols = 3, rows = [[0, 9, 9], [1, 1, 5], [2, 2, 1], [3, 3, 3 :: real]]\<rparr>
       = Inr on_front
     \<and> length on_front
       = length (rows \<lparr>ncols = 3, rows = [[0, 9, 9], [1, 1, 5], [2, 2, 1], [3, 3, 3 :: real]]\<rparr>)
     \<and> (\<forall>k<length (rows \<lparr>ncols = 3,
                           rows = [[0, 9, 9], [1, 1, 5], [2, 2, 1], [3, 3, 3 :: real]]\<rparr>).
           on_front ! k \<longleftrightarrow>
           nondominated
             (rows \<lparr>ncols = 3, rows = [[0, 9, 9], [1, 1, 5], [2, 2, 1], [3, 3, 3 :: real]]\<rparr>)
             k)"
proof -
  have "wf_matrix \<lparr>ncols = 3, rows = [[0, 9, 9], [1, 1, 5], [2, 2, 1], [3, 3, 3 :: real]]\<rparr>"
    by (simp add: wf_matrix_def)
  moreover have "sorted_wrt (<)
      (rows \<lparr>ncols = 3, rows = [[0, 9, 9], [1, 1, 5], [2, 2, 1], [3, 3, 3 :: real]]\<rparr>)"
    by simp
  moreover have
    "ncols \<lparr>ncols = 3, rows = [[0, 9, 9], [1, 1, 5], [2, 2, 1], [3, 3, 3 :: real]]\<rparr> = 1
     \<longrightarrow> rows \<lparr>ncols = 3, rows = [[0, 9, 9], [1, 1, 5], [2, 2, 1], [3, 3, 3 :: real]]\<rparr> \<noteq> []"
    by simp
  ultimately show ?thesis by (rule is_pareto_front_marks_nondominated)
qed

section \<open>The layering loop\<close>

lemma compress_map_gen: "compress (map P xs) (map g xs) = map g (filter P xs)"
  by (induction xs) (simp_all add: compress_def)

lemma length_assign_at [simp]: "length (assign_at a idx v) = length a"
  unfolding assign_at_def by (induction idx arbitrary: a) simp_all

lemma assign_at_nth:
  "i < length a \<Longrightarrow> assign_at a idx v ! i = (if i \<in> set idx then v else a ! i)"
  unfolding assign_at_def
proof (induction idx arbitrary: a)
  case Nil
  then show ?case by simp
next
  case (Cons j idx)
  have "i < length (a[j := v])" using Cons.prems by simp
  then have "fold (\<lambda>i acc. acc[i := v]) idx (a[j := v]) ! i
           = (if i \<in> set idx then v else a[j := v] ! i)"
    by (rule Cons.IH)
  then show ?case using Cons.prems by (auto simp add: nth_list_update)
qed

lemma nondominated_live:
  "q < length indices \<Longrightarrow>
   nondominated (map ((!) U) indices) q \<longleftrightarrow> live_front U indices (indices ! q)"
  by (simp add: nondominated_def live_front_def all_set_conv_all_nth)

lemma is_pareto_front_live:
  fixes U :: "'a::linorder list list"
  assumes U: "sorted_wrt (<) U" "\<forall>r\<in>set U. length r = d" and d: "d \<noteq> 1"
    and idx: "sorted_wrt (<) indices" "set indices \<subseteq> {..<length U}"
  shows "is_pareto_front \<lparr>ncols = d, rows = map ((!) U) indices\<rparr>
         = Inr (map (live_front U indices) indices)"
proof -
  let ?m = "\<lparr>ncols = d, rows = map ((!) U) indices\<rparr>"
  have wf: "wf_matrix ?m"
    using U(2) idx(2) by (auto simp add: wf_matrix_def list_all_iff)
  have "sorted_wrt (\<lambda>i j. U ! i < U ! j) indices"
  proof (rule sorted_wrt_mono_rel[OF _ idx(1)])
    fix i j assume "i \<in> set indices" "j \<in> set indices" "i < j"
    then show "U ! i < U ! j" using idx(2) sorted_wrt_nth_less[OF U(1)] by auto
  qed
  then have so: "sorted_wrt (<) (rows ?m)" by (simp add: sorted_wrt_map)
  have ne: "ncols ?m = 1 \<longrightarrow> rows ?m \<noteq> []" using d by simp
  obtain on_front where o: "is_pareto_front ?m = Inr on_front"
      "length on_front = length (rows ?m)"
      "\<forall>k<length (rows ?m). on_front ! k \<longleftrightarrow> nondominated (rows ?m) k"
    using is_pareto_front_spec[OF wf so ne] by blast
  have "on_front = map (live_front U indices) indices"
  proof (rule nth_equalityI)
    show "length on_front = length (map (live_front U indices) indices)" using o(2) by simp
  next
    fix q assume "q < length on_front"
    then have q: "q < length indices" using o(2) by simp
    then show "on_front ! q = map (live_front U indices) indices ! q"
      using o(3) nondominated_live[OF q, of U] by simp
  qed
  then show ?thesis using o(1) by simp
qed


lemma rank_invD:
  "rank_inv U n_below ranks rank indices \<Longrightarrow> sorted_wrt (<) indices"
  "rank_inv U n_below ranks rank indices \<Longrightarrow> set indices \<subseteq> {..<length U}"
  "rank_inv U n_below ranks rank indices \<Longrightarrow> length ranks = length U"
  "rank_inv U n_below ranks rank indices \<Longrightarrow> 0 \<le> rank"
  "rank_inv U n_below ranks rank indices \<Longrightarrow> rank \<le> int (length U) - int (length indices)"
  "rank_inv U n_below ranks rank indices \<Longrightarrow> rank = 0 \<or> rank \<le> n_below"
  "rank_inv U n_below ranks rank indices \<Longrightarrow>
     \<forall>k<length U. k \<notin> set indices \<longrightarrow> 0 \<le> ranks ! k \<and> ranks ! k < rank"
  "rank_inv U n_below ranks rank indices \<Longrightarrow>
     \<forall>j<length U. \<forall>k<length U. k \<notin> set indices \<longrightarrow> vec_dominates (U ! j) (U ! k)
            \<longrightarrow> j \<notin> set indices \<and> ranks ! j < ranks ! k"
  unfolding rank_inv_def by (elim conjE, assumption)+

lemma live_front_first:
  fixes U :: "'a::linorder list list"
  assumes U: "sorted_wrt (<) U" and idx: "sorted_wrt (<) (i0 # rest)"
    "set (i0 # rest) \<subseteq> {..<length U}"
  shows "live_front U (i0 # rest) i0"
  unfolding live_front_def
proof
  assume "\<exists>j\<in>set (i0 # rest). vec_dominates (U ! j) (U ! i0)"
  then obtain j where j: "j \<in> set (i0 # rest)" "vec_dominates (U ! j) (U ! i0)" by blast
  have jl: "j < length U" "i0 < length U" using j(1) idx(2) by auto
  have "U ! j < U ! i0" using j(2) by (rule vec_dominates_less)
  then have "j < i0" using strict_sorted_nth_less_iff[OF U jl] by simp
  moreover have "i0 \<le> j" using j(1) idx(1) by auto
  ultimately show False by simp
qed

lemma rank_inv_step:
  fixes U :: "'a::linorder list list"
  assumes U: "sorted_wrt (<) U"
    and inv: "rank_inv U n_below ranks rank indices"
    and c: "int (length U) - int (length indices) < n_below"
    and ne: "indices \<noteq> []"
  shows "rank_inv U n_below (assign_at ranks (filter (live_front U indices) indices) rank)
           (rank + 1) (filter (\<lambda>i. \<not> live_front U indices i) indices)"
    and "length (filter (\<lambda>i. \<not> live_front U indices i) indices) < length indices"
proof -
  let ?F = "live_front U indices"
  let ?idx' = "filter (\<lambda>i. \<not> ?F i) indices"
  let ?ranks' = "assign_at ranks (filter ?F indices) rank"
  note i1 = rank_invD(1)[OF inv] and i2 = rank_invD(2)[OF inv] and i3 = rank_invD(3)[OF inv]
    and i4 = rank_invD(4)[OF inv] and i5 = rank_invD(5)[OF inv] and i7 = rank_invD(7)[OF inv]
    and i8 = rank_invD(8)[OF inv]
  obtain i0 rest where ir: "indices = i0 # rest" using ne by (cases indices) auto
  have f0: "?F i0" using live_front_first[OF U] i1 i2 ir by simp
  show short: "length ?idx' < length indices" using ir f0 by (simp add: less_Suc_eq_le)
  have nth': "\<And>k. k < length U \<Longrightarrow>
      ?ranks' ! k = (if k \<in> set indices \<and> ?F k then rank else ranks ! k)"
    using i3 by (simp add: assign_at_nth)
  have r1: "sorted_wrt (<) ?idx'" using i1 by (rule sorted_wrt_filter)
  have r2: "set ?idx' \<subseteq> {..<length U}" using i2 by auto
  have r3: "length ?ranks' = length U" using i3 by simp
  have r4: "0 \<le> rank + 1" using i4 by simp
  have r5: "rank + 1 \<le> int (length U) - int (length ?idx')" using i5 short by simp
  have r6: "rank + 1 \<le> n_below" using i5 c by simp
  have r7: "\<forall>k<length U. k \<notin> set ?idx' \<longrightarrow> 0 \<le> ?ranks' ! k \<and> ?ranks' ! k < rank + 1"
  proof (intro allI impI)
    fix k assume k: "k < length U" "k \<notin> set ?idx'"
    show "0 \<le> ?ranks' ! k \<and> ?ranks' ! k < rank + 1"
    proof (cases "k \<in> set indices")
      case True
      then have "?F k" using k(2) by simp
      then show ?thesis using nth'[OF k(1)] True i4 by simp
    next
      case False
      then have "0 \<le> ranks ! k \<and> ranks ! k < rank" using i7 k(1) by simp
      then show ?thesis using nth'[OF k(1)] False by simp
    qed
  qed
  have r8: "\<forall>j<length U. \<forall>k<length U. k \<notin> set ?idx' \<longrightarrow> vec_dominates (U ! j) (U ! k)
            \<longrightarrow> j \<notin> set ?idx' \<and> ?ranks' ! j < ?ranks' ! k"
  proof (intro allI impI)
    fix j k assume j: "j < length U" and k: "k < length U" "k \<notin> set ?idx'"
      and dom: "vec_dominates (U ! j) (U ! k)"
    show "j \<notin> set ?idx' \<and> ?ranks' ! j < ?ranks' ! k"
    proof (cases "k \<in> set indices")
      case True
      then have fk: "?F k" using k(2) by simp
      have jn: "j \<notin> set indices"
      proof
        assume "j \<in> set indices"
        then have "\<exists>j\<in>set indices. vec_dominates (U ! j) (U ! k)" using dom by (rule bexI[rotated])
        then show False using fk by (simp add: live_front_def)
      qed
      then have "ranks ! j < rank" using i7 j by simp
      then show ?thesis using nth'[OF j] nth'[OF k(1)] True fk jn by simp
    next
      case False
      have "j \<notin> set indices \<and> ranks ! j < ranks ! k"
        using i8[rule_format, OF j k(1) False dom] .
      then show ?thesis using nth'[OF j] nth'[OF k(1)] False by simp
    qed
  qed
  show "rank_inv U n_below ?ranks' (rank + 1) ?idx'"
    unfolding rank_inv_def by (intro conjI disjI2; fact)
qed

lemma rank_loop_total:
  fixes U :: "'a::linorder list list"
  assumes U: "sorted_wrt (<) U" "\<forall>r\<in>set U. length r = d" and d: "d \<noteq> 1"
    and nb: "n_below \<le> int (length U)"
  shows "rank_inv U n_below ranks rank indices \<Longrightarrow>
    \<exists>ranks' rank' indices'.
      rank_loop (length U) n_below ranks rank indices \<lparr>ncols = d, rows = map ((!) U) indices\<rparr>
        = Some (Inr (ranks', rank', indices'))
      \<and> rank_inv U n_below ranks' rank' indices'
      \<and> n_below \<le> int (length U) - int (length indices')"
proof (induction "length indices" arbitrary: ranks rank indices rule: less_induct)
  case less
  show ?case
  proof (cases "int (length U) - int (length indices) < n_below")
    case False
    then have "rank_loop (length U) n_below ranks rank indices
                 \<lparr>ncols = d, rows = map ((!) U) indices\<rparr> = Some (Inr (ranks, rank, indices))"
      by (subst rank_loop.simps) simp
    then show ?thesis using less.prems False by auto
  next
    case True
    let ?F = "live_front U indices"
    let ?idx' = "filter (\<lambda>i. \<not> ?F i) indices"
    let ?ranks' = "assign_at ranks (filter ?F indices) rank"
    have ne: "indices \<noteq> []" using True nb by auto
    note i1 = rank_invD(1)[OF less.prems] and i2 = rank_invD(2)[OF less.prems]
    have front: "is_pareto_front \<lparr>ncols = d, rows = map ((!) U) indices\<rparr>
         = Inr (map ?F indices)"
      using is_pareto_front_live[OF U d i1 i2] .
    have c1: "compress (map ?F indices) indices = filter ?F indices"
      by (rule compress_map_self)
    have c2: "compress (map Not (map ?F indices)) indices = ?idx'"
      by (simp add: compress_map_self comp_def)
    have c3: "mcompress (map Not (map ?F indices)) \<lparr>ncols = d, rows = map ((!) U) indices\<rparr>
        = \<lparr>ncols = d, rows = map ((!) U) ?idx'\<rparr>"
      by (simp add: mcompress_def compress_map_gen comp_def)
    have step: "rank_loop (length U) n_below ranks rank indices
                 \<lparr>ncols = d, rows = map ((!) U) indices\<rparr>
        = rank_loop (length U) n_below ?ranks' (rank + 1) ?idx'
            \<lparr>ncols = d, rows = map ((!) U) ?idx'\<rparr>"
      by (subst rank_loop.simps) (simp only: True front c1 c2 c3 if_True sum.case)
    have inv': "rank_inv U n_below ?ranks' (rank + 1) ?idx'"
      by (rule rank_inv_step(1)[OF U(1) less.prems True ne])
    have short: "length ?idx' < length indices"
      by (rule rank_inv_step(2)[OF U(1) less.prems True ne])
    show ?thesis
      unfolding step using less.hyps[OF short inv'] .
  qed
qed


lemma index_of_less: "x \<in> set u \<Longrightarrow> index_of u x < length u"
  by (induction u) auto


lemma unique_strict_sorted: "sorted_wrt (<) (sort (remdups (a :: 'a::linorder list)))"
  by (simp add: strict_sorted_iff)

lemma rank_inv_init:
  "rank_inv U n_below (replicate (length U) 0) 0 [0..<length U]"
  by (auto simp add: rank_inv_def)

lemma wf_unique:
  "wf_matrix lv \<Longrightarrow> \<forall>r\<in>set (sort (remdups (rows lv))). length r = ncols lv"
  by (simp add: wf_matrix_def list_all_iff)

lemma rank_loop_from_start:
  fixes lv :: "'a::linorder matrix"
  assumes wf: "wf_matrix lv" and d: "ncols lv \<noteq> 1"
    and nb: "n_below \<le> int (length (remdups (rows lv)))"
  shows "\<exists>ranks rank indices.
      rank_loop (length (sort (remdups (rows lv)))) n_below
         (replicate (length (sort (remdups (rows lv)))) 0) 0
         [0..<length (sort (remdups (rows lv)))]
         \<lparr>ncols = ncols lv, rows = sort (remdups (rows lv))\<rparr>
        = Some (Inr (ranks, rank, indices))
      \<and> rank_inv (sort (remdups (rows lv))) n_below ranks rank indices
      \<and> n_below \<le> int (length (sort (remdups (rows lv)))) - int (length indices)"
proof -
  let ?U = "sort (remdups (rows lv))"
  have nb': "n_below \<le> int (length ?U)" using nb by simp
  have "\<exists>ranks' rank' indices'.
      rank_loop (length ?U) n_below (replicate (length ?U) 0) 0 [0..<length ?U]
         \<lparr>ncols = ncols lv, rows = map ((!) ?U) [0..<length ?U]\<rparr>
        = Some (Inr (ranks', rank', indices'))
      \<and> rank_inv ?U n_below ranks' rank' indices'
      \<and> n_below \<le> int (length ?U) - int (length indices')"
    by (rule rank_loop_total[OF unique_strict_sorted wf_unique[OF wf] d nb' rank_inv_init])
  then show ?thesis by (simp only: map_nth)
qed

lemma calculate_nondomination_rank_nd:
  fixes lv :: "'a::linorder matrix"
  assumes d: "ncols lv \<noteq> 1" and pos: "n_below = None \<or> 0 < the n_below"
  shows "calculate_nondomination_rank lv n_below =
     (case rank_loop (length (sort (remdups (rows lv))))
             (min (or_len n_below (length (rows lv))) (int (length (rows lv))))
             (replicate (length (sort (remdups (rows lv)))) 0) 0
             [0..<length (sort (remdups (rows lv)))]
             \<lparr>ncols = ncols lv, rows = sort (remdups (rows lv))\<rparr> of
        None \<Rightarrow> None
      | Some (Inl e) \<Rightarrow> Some (Inl e)
      | Some (Inr (ranks, rank, indices)) \<Rightarrow>
          Some (Inr (map (\<lambda>i. assign_at ranks indices rank ! i)
                      (map (index_of (sort (remdups (rows lv)))) (rows lv)))))"
  using d pos by (auto simp add: calculate_nondomination_rank_def np_unique_def Let_def)







section \<open>The budget of the layering loop\<close>

lemma length_ranks_below:
  assumes "\<forall>x\<in>set out. 0 \<le> x" and "0 \<le> r"
  shows "int (length (ranks_below r out)) \<le> r"
proof -
  have "set (filter (\<lambda>x. x < r) out) \<subseteq> {0..<r}" using assms(1) by auto
  then have "card (set (filter (\<lambda>x. x < r) out)) \<le> card {0..<r}"
    by (intro card_mono) simp_all
  then have "length (ranks_below r out) \<le> nat r"
    by (simp add: ranks_below_def length_remdups_card_conv)
  then show ?thesis using assms(2) by simp
qed

lemma is_pareto_front_no_rows:
  "ncols m \<noteq> 1 \<Longrightarrow> rows m = [] \<Longrightarrow> is_pareto_front (m :: 'a::linorder matrix) = Inr []"
  by (simp add: is_pareto_front_def is_pareto_front_2d_def is_pareto_front_nd_def)

lemma rank_loop_no_rows_Some:
  fixes m :: "'a::linorder matrix"
  assumes ret: "rank_loop n_unique n_below ranks rank indices m = Some y"
  shows "\<not> (int n_unique < n_below \<and> indices = [] \<and> rows m = [] \<and> ncols m \<noteq> 1)"
proof (rule rank_loop.raw_induct
    [where P = "\<lambda>nu nb rs r idx (m :: 'a matrix) y.
                  \<not> (int nu < nb \<and> idx = [] \<and> rows m = [] \<and> ncols m \<noteq> 1)",
     OF _ ret])
  fix f :: "nat \<Rightarrow> int \<Rightarrow> int list \<Rightarrow> int \<Rightarrow> nat list \<Rightarrow> 'a matrix
            \<Rightarrow> (error + int list \<times> int \<times> nat list) option"
    and nu nb rs r idx and m :: "'a matrix" and y
  assume IH: "\<And>nu nb rs r idx m y. f nu nb rs r idx m = Some y
      \<Longrightarrow> \<not> (int nu < nb \<and> idx = [] \<and> rows m = [] \<and> ncols m \<noteq> 1)"
    and body: "(if int nu - int (length idx) < nb
         then case is_pareto_front m of
                Inl e \<Rightarrow> Some (Inl e)
              | Inr on_front \<Rightarrow>
                  f nu nb (assign_at rs (compress on_front idx) r) (r + 1)
                    (compress (map Not on_front) idx) (mcompress (map Not on_front) m)
         else Some (Inr (rs, r, idx))) = Some y"
  show "\<not> (int nu < nb \<and> idx = [] \<and> rows m = [] \<and> ncols m \<noteq> 1)"
  proof
    assume pre: "int nu < nb \<and> idx = [] \<and> rows m = [] \<and> ncols m \<noteq> 1"
    then have fr: "is_pareto_front m = Inr []" by (simp add: is_pareto_front_no_rows)
    have "f nu nb (assign_at rs (compress [] idx) r) (r + 1)
            (compress (map Not []) idx) (mcompress (map Not []) m) = Some y"
      using body pre fr by simp
    then have "\<not> (int nu < nb \<and> compress (map Not []) idx = []
                   \<and> rows (mcompress (map Not []) m) = []
                   \<and> ncols (mcompress (map Not []) m) \<noteq> 1)"
      by (rule IH)
    then show False using pre by (simp add: compress_def mcompress_def)
  qed
qed

lemma rank_loop_no_rows:
  fixes m :: "'a::linorder matrix"
  assumes "int n_unique < n_below" and "rows m = []" and "ncols m \<noteq> 1"
  shows "rank_loop n_unique n_below ranks rank [] m = None"
proof (cases "rank_loop n_unique n_below ranks rank [] m")
  case None
  then show ?thesis .
next
  case (Some y)
  then show ?thesis using rank_loop_no_rows_Some[OF Some] assms by simp
qed


lemma array_truth_long:
  "2 \<le> length bs \<Longrightarrow> array_truth bs = Inl (ValueError ''The truth value of an array'')"
  by (cases bs; cases "tl bs") auto

lemma and_then_raise: "and_then (Some (Inl e)) k = Some (Inl e)"
  by (simp add: and_then_def)

lemma and_then_not_returned:
  "and_then r (\<lambda>x. Some (Inl e)) \<noteq> Some (Inr y)"
  by (simp add: and_then_def split: option.splits sum.splits)

lemma and_then_returned:
  "r = Some (Inr x) \<Longrightarrow> and_then r (\<lambda>x. Some (Inl e)) = Some (Inl e)"
  by (simp add: and_then_def)

lemma set_compress_subset: "set (compress msk xs) \<subseteq> set xs"
proof -
  have "set (map snd (filter fst (zip msk xs))) \<subseteq> snd ` set (zip msk xs)" by auto
  also have "\<dots> \<subseteq> set xs" by (auto dest: set_zip_rightD)
  finally show ?thesis by (simp add: compress_def)
qed

lemma wf_mcompress: "wf_matrix m \<Longrightarrow> wf_matrix (mcompress msk m)"
  using set_compress_subset[of msk "rows m"]
  by (auto simp add: wf_matrix_def list_all_iff mcompress_def)

lemma calculate_nondomination_rank_returns:
  fixes lv :: "'a::linorder matrix"
  assumes wf: "wf_matrix lv" and c: "ncols lv = 1 \<or> distinct (rows lv)"
  shows "\<exists>ranks. calculate_nondomination_rank lv n_below = Some (Inr ranks)"
proof (cases "n_below \<noteq> None \<and> the n_below \<le> 0")
  case True
  then show ?thesis by (simp add: calculate_nondomination_rank_def)
next
  case False
  then have pos: "n_below = None \<or> 0 < the n_below" by auto
  show ?thesis
  proof (cases "ncols lv = 1")
    case True
    then show ?thesis using False
      by (simp add: calculate_nondomination_rank_def np_unique_def Let_def)
  next
    case d: False
    then have rd: "remdups (rows lv) = rows lv" using c by (simp add: distinct_remdups_id)
    have nb: "min (or_len n_below (length (rows lv))) (int (length (rows lv)))
                \<le> int (length (remdups (rows lv)))"
      by (simp add: rd)
    obtain ranks rank indices where
      "rank_loop (length (sort (remdups (rows lv))))
         (min (or_len n_below (length (rows lv))) (int (length (rows lv))))
         (replicate (length (sort (remdups (rows lv)))) 0) 0
         [0..<length (sort (remdups (rows lv)))]
         \<lparr>ncols = ncols lv, rows = sort (remdups (rows lv))\<rparr>
        = Some (Inr (ranks, rank, indices))"
      using rank_loop_from_start[OF wf d nb] by blast
    then show ?thesis by (simp add: calculate_nondomination_rank_nd[OF d pos])
  qed
qed

lemma fast_non_dominated_sort_penalty:
  fixes lv :: "'a::linorder matrix"
  assumes "length penalty = length (rows lv)" and "2 \<le> length penalty"
  shows "fast_non_dominated_sort lv (Some penalty) n_below =
     and_then
       (calculate_nondomination_rank
          (mcompress (map2 (\<and>) (map Not (map isnan penalty)) (map le_zero penalty)) lv)
          (Some (or_len n_below (length (rows lv)))))
       (\<lambda>ranks_feasible. Some (Inl (ValueError ''The truth value of an array'')))"
proof -
  have at: "array_truth (map (\<lambda>b. (0::int) < of_bool b)
                (map2 (\<and>) (map Not (map isnan penalty)) (map gt_zero penalty)))
        = Inl (ValueError ''The truth value of an array'')"
    using assms(2) by (intro array_truth_long) simp
  show ?thesis
    unfolding fast_non_dominated_sort_def Let_def
    using assms(1) by (simp only: at and_then_raise option.case simp_thms if_False)
qed



text \<open>
  C8, as stated, fails with one objective: the shortcut returns the dense rank of every
  value whatever n_below is. With n_below = 1 on the values 5, 3, 7, 9 there are three
  distinct ranks below the greatest rank, and the three rows after the first do not share
  a rank.
\<close>

theorem rank_budget_1d_counterexample:
  "calculate_nondomination_rank \<lparr>ncols = 1, rows = [[5], [3], [7], [9 :: real]]\<rparr> (Some 1)
     = Some (Inr [1, 0, 2, 3])
   \<and> length (ranks_below (Max (set [1, 0, 2, 3])) [1, 0, 2, 3]) = 3"
proof -
  have "calculate_nondomination_rank \<lparr>ncols = 1, rows = [[5], [3], [7], [9 :: real]]\<rparr>
          (Some 1) = Some (Inr [1, 0, 2, 3])"
    by code_simp
  moreover have "length (ranks_below (Max (set [1, 0, 2, 3])) [1, 0, 2, 3]) = 3"
    by (simp add: ranks_below_def)
  ultimately show ?thesis by simp
qed


text \<open>
  C8 (amended): for every input with an objective count other than one and every positive
  budget k whose clipped value min(k, number of rows) does not exceed the number of distinct
  rows, \<open>_calculate_nondomination_rank\<close> with n_below = k returns one rank per row; the
  rank counter at the exit of the loop, which is the final catch-all rank, is at most k, so
  at most k distinct ranks lie below it; every row the loop has not ranked receives exactly
  that rank, every row it has ranked a smaller one; and the loop has ranked at least
  min(k, number of rows) distinct rows.
\<close>

theorem rank_budget:
  fixes lv :: "'a::linorder matrix"
  assumes wf: "wf_matrix lv" and d: "ncols lv \<noteq> 1" and k: "0 < k"
    and ret: "min k (int (length (rows lv))) \<le> int (length (remdups (rows lv)))"
  shows "\<exists>ranks rank indices out.
      rank_loop (length (sort (remdups (rows lv)))) (min k (int (length (rows lv))))
         (replicate (length (sort (remdups (rows lv)))) 0) 0
         [0..<length (sort (remdups (rows lv)))]
         \<lparr>ncols = ncols lv, rows = sort (remdups (rows lv))\<rparr>
        = Some (Inr (ranks, rank, indices))
    \<and> calculate_nondomination_rank lv (Some k) = Some (Inr out)
    \<and> length out = length (rows lv)
    \<and> 0 \<le> rank \<and> rank \<le> k
    \<and> int (length (ranks_below rank out)) \<le> k
    \<and> min k (int (length (rows lv)))
         \<le> int (length (sort (remdups (rows lv)))) - int (length indices)
    \<and> (\<forall>i<length (rows lv).
          if index_of (sort (remdups (rows lv))) (rows lv ! i) \<in> set indices
          then out ! i = rank
          else 0 \<le> out ! i \<and> out ! i < rank)"
proof -
  let ?U = "sort (remdups (rows lv))"
  let ?n = "length (rows lv)"
  let ?nb = "min k (int ?n)"
  obtain ranks rank indices where
    loop: "rank_loop (length ?U) ?nb (replicate (length ?U) 0) 0 [0..<length ?U]
             \<lparr>ncols = ncols lv, rows = ?U\<rparr> = Some (Inr (ranks, rank, indices))"
    and inv: "rank_inv ?U ?nb ranks rank indices"
    and ex: "?nb \<le> int (length ?U) - int (length indices)"
    using rank_loop_from_start[OF wf d ret] by blast
  let ?out = "map (\<lambda>i. assign_at ranks indices rank ! i) (map (index_of ?U) (rows lv))"
  have pos: "Some k = None \<or> 0 < the (Some k)" using k by simp
  have ol: "or_len (Some k) ?n = k" using k by (simp add: or_len_def)
  have calc: "calculate_nondomination_rank lv (Some k) = Some (Inr ?out)"
    using loop by (simp add: calculate_nondomination_rank_nd[OF d pos] ol)
  have r0: "0 \<le> rank" by (rule rank_invD(4)[OF inv])
  have rk: "rank \<le> k" using rank_invD(6)[OF inv] k by auto
  have lr: "length ranks = length ?U" by (rule rank_invD(3)[OF inv])
  have each: "\<forall>i<?n. if index_of ?U (rows lv ! i) \<in> set indices
          then ?out ! i = rank else 0 \<le> ?out ! i \<and> ?out ! i < rank"
  proof (intro allI impI)
    fix i assume i: "i < ?n"
    let ?a = "index_of ?U (rows lv ! i)"
    have "rows lv ! i \<in> set ?U" using i by simp
    then have a: "?a < length ?U" by (rule index_of_less)
    have oi: "?out ! i = (if ?a \<in> set indices then rank else ranks ! ?a)"
      using i a lr by (simp add: assign_at_nth)
    show "if ?a \<in> set indices then ?out ! i = rank else 0 \<le> ?out ! i \<and> ?out ! i < rank"
    proof (cases "?a \<in> set indices")
      case True
      then show ?thesis using oi by simp
    next
      case False
      have "0 \<le> ranks ! ?a \<and> ranks ! ?a < rank"
        using rank_invD(7)[OF inv, rule_format, OF a False] .
      then show ?thesis using oi False by simp
    qed
  qed
  have lo: "length ?out = ?n" by simp
  have "\<forall>x\<in>set ?out. 0 \<le> x"
  proof
    fix x assume "x \<in> set ?out"
    then obtain i where i: "i < length ?out" "?out ! i = x" by (metis in_set_conv_nth)
    then have "i < ?n" by simp
    then have "if index_of ?U (rows lv ! i) \<in> set indices
          then ?out ! i = rank else 0 \<le> ?out ! i \<and> ?out ! i < rank"
      using each by blast
    then show "0 \<le> x" using i(2) r0 by (auto split: if_splits)
  qed
  then have "int (length (ranks_below rank ?out)) \<le> rank"
    using r0 by (rule length_ranks_below)
  then have below: "int (length (ranks_below rank ?out)) \<le> k" using rk by simp
  show ?thesis
    by (rule exI[of _ ranks], rule exI[of _ rank], rule exI[of _ indices],
        rule exI[of _ ?out])
       (intro conjI; fact)
qed


theorem rank_budget_witness:
  "\<exists>out rank.
     calculate_nondomination_rank \<lparr>ncols = 2, rows = [[1, 1], [2, 2], [3, 3 :: real]]\<rparr> (Some 1)
       = Some (Inr out)
     \<and> rank \<le> 1 \<and> int (length (ranks_below rank out)) \<le> 1"
proof -
  have h1: "wf_matrix \<lparr>ncols = 2, rows = [[1, 1], [2, 2], [3, 3 :: real]]\<rparr>"
    by (simp add: wf_matrix_def)
  have h2: "ncols \<lparr>ncols = 2, rows = [[1, 1], [2, 2], [3, 3 :: real]]\<rparr> \<noteq> 1" by simp
  have h3: "(0::int) < 1" by simp
  have h4: "min 1 (int (length (rows \<lparr>ncols = 2, rows = [[1, 1], [2, 2], [3, 3 :: real]]\<rparr>)))
      \<le> int (length (remdups (rows \<lparr>ncols = 2, rows = [[1, 1], [2, 2], [3, 3 :: real]]\<rparr>)))"
    by simp
  from rank_budget[OF h1 h2 h3 h4] show ?thesis by blast
qed

section \<open>The constrained ranking with penalties\<close>

text \<open>
  C3: with two equal feasible rows the call does not raise: the ranking of the feasible
  rows never ends, so the guard of the second phase is never reached, and the call neither
  raises nor returns (the value \<open>None\<close>). The budget is clipped to the number of rows, 2,
  while the loop counts the distinct rows, of which there is 1.
\<close>

theorem constrained_rank_duplicates_never_ends:
  "fast_non_dominated_sort \<lparr>ncols = 2, rows = [[1, 1], [1, 1 :: real]]\<rparr>
     (Some [Num (Fin 0), Num (Fin 0)]) None = None"
proof -
  have step: "rank_loop 1 2 [0] 0 [0] \<lparr>ncols = 2, rows = [[1, 1 :: real]]\<rparr>
            = rank_loop 1 2 [0] 1 [] \<lparr>ncols = 2, rows = [] :: real list list\<rparr>"
    by (subst rank_loop.simps)
       (simp add: is_pareto_front_def is_pareto_front_2d_def compress_def mcompress_def
          assign_at_def)
  have "rank_loop 1 2 [0] 1 [] \<lparr>ncols = 2, rows = [] :: real list list\<rparr> = None"
    by (rule rank_loop_no_rows) simp_all
  then have "calculate_nondomination_rank \<lparr>ncols = 2, rows = [[1, 1], [1, 1 :: real]]\<rparr>
               (Some 2) = None"
    using step by (simp add: calculate_nondomination_rank_def np_unique_def or_len_def)
  then show ?thesis
    by (simp add: fast_non_dominated_sort_def Let_def isnan_def le_zero_def
          less_eq_pyfloat_def compress_def mcompress_def or_len_def and_then_def)
qed


text \<open>
  On every other path of a call with two or more penalties no rank array is returned
  either: whenever the ranking of the feasible rows returns, the guard of the second phase
  raises; it returns, in particular, when there is a single objective or the feasible rows
  are pairwise distinct.
\<close>

lemma constrained_rank_no_ranks:
  fixes lv :: "'a::linorder matrix"
  assumes "length penalty = length (rows lv)" and "2 \<le> length penalty"
  shows "(\<forall>ranks. fast_non_dominated_sort lv (Some penalty) n_below \<noteq> Some (Inr ranks))
    \<and> (\<forall>r. calculate_nondomination_rank
              (mcompress (map2 (\<and>) (map Not (map isnan penalty)) (map le_zero penalty)) lv)
              (Some (or_len n_below (length (rows lv)))) = Some (Inr r)
          \<longrightarrow> fast_non_dominated_sort lv (Some penalty) n_below
                = Some (Inl (ValueError ''The truth value of an array'')))"
proof (intro conjI allI impI)
  fix ranks
  show "fast_non_dominated_sort lv (Some penalty) n_below \<noteq> Some (Inr ranks)"
    unfolding fast_non_dominated_sort_penalty[OF assms] by (rule and_then_not_returned)
next
  fix r
  assume "calculate_nondomination_rank
              (mcompress (map2 (\<and>) (map Not (map isnan penalty)) (map le_zero penalty)) lv)
              (Some (or_len n_below (length (rows lv)))) = Some (Inr r)"
  then show "fast_non_dominated_sort lv (Some penalty) n_below
             = Some (Inl (ValueError ''The truth value of an array''))"
    unfolding fast_non_dominated_sort_penalty[OF assms] by (rule and_then_returned)
qed


lemma constrained_rank_raises:
  fixes lv :: "'a::linorder matrix"
  assumes len: "length penalty = length (rows lv)" "2 \<le> length penalty"
    and wf: "wf_matrix lv"
    and c: "ncols lv = 1
       \<or> distinct (compress (map2 (\<and>) (map Not (map isnan penalty)) (map le_zero penalty))
                    (rows lv))"
  shows "fast_non_dominated_sort lv (Some penalty) n_below
           = Some (Inl (ValueError ''The truth value of an array''))"
proof -
  let ?F = "map2 (\<and>) (map Not (map isnan penalty)) (map le_zero penalty)"
  have wf': "wf_matrix (mcompress ?F lv)" using wf by (rule wf_mcompress)
  have c': "ncols (mcompress ?F lv) = 1 \<or> distinct (rows (mcompress ?F lv))"
    using c by (simp add: mcompress_def)
  obtain r where "calculate_nondomination_rank (mcompress ?F lv)
                    (Some (or_len n_below (length (rows lv)))) = Some (Inr r)"
    using calculate_nondomination_rank_returns[OF wf' c'] by blast
  then show ?thesis using constrained_rank_no_ranks[OF len] by blast
qed

end
